theory Spec2Isabelle
  imports Main "HOL-Library.Word"
begin

section \<open>The nodal Raviart-Thomas element of fe\_raviart\_thomas\_nodal.cc\<close>

text \<open>
  The embedding follows \<^verbatim>\<open>source/fe/fe_raviart_thomas_nodal.cc\<close>. The template
  parameter \<open>dim\<close> is an ordinary argument. An \<^verbatim>\<open>unsigned int\<close> is a 32-bit word: the two
  functions that compute counts from the caller's degree, \<^verbatim>\<open>n_polynomials\<close> and
  \<^verbatim>\<open>get_rt_dpo_vector\<close>, and the index deltas of the face orientation table are
  computed on words and wrap around as the source does. The counts that a built
  element hands out are natural numbers; they are the numbers the two functions
  return whenever these fit 32 bits (lemma \<open>rt_counts_no_overflow\<close>). \<^verbatim>\<open>Assert\<close> and
  \<^verbatim>\<open>AssertThrow\<close> are checks that end the call with their exception, and the blocks
  under \<^verbatim>\<open>#ifdef DEBUG\<close> are present: the model is the library built with its checks.
\<close>

datatype exc =
    ExcInterpolationNotImplemented
  | ExcNotImplemented
  | ExcDimensionMismatch
  | ExcImpossibleInDim
  | ExcInternalError
  | ExcIndexRange
  | ExcBadCast

subsection \<open>Numbers of polynomials and of degrees of freedom\<close>

text \<open>
  \<^verbatim>\<open>PolynomialsRaviartThomasNodal<dim>::n_polynomials\<close>: a product of
  \<^verbatim>\<open>unsigned int\<close> values, \<^verbatim>\<open>Utilities::pow\<close> being the power of its first argument.
\<close>

definition n_polynomials :: "nat \<Rightarrow> 32 word \<Rightarrow> 32 word" where
  "n_polynomials dim degree = of_nat dim * (degree + 2) * (degree + 1) ^ (dim - 1)"

text \<open>
  \<^verbatim>\<open>get_rt_dpo_vector\<close>: the vector has \<open>dim + 1\<close> entries, entries 0 and 1 are set to
  0 first, then entries \<open>dim - 1\<close> and \<open>dim\<close> are written. The loop multiplies
  \<open>dofs_per_face\<close> by \<open>degree + 1\<close> for \<open>d = 1, ..., dim - 1\<close>.
\<close>

definition get_rt_dpo_vector :: "nat \<Rightarrow> 32 word \<Rightarrow> 32 word list" where
  "get_rt_dpo_vector dim degree =
     (let dpo0 = replicate (dim + 1) (0 :: 32 word);
          dpo1 = dpo0[0 := 0];
          dpo2 = dpo1[1 := 0];
          dofs_per_face = fold (\<lambda>d acc. acc * (degree + 1)) [1..<dim] (1 :: 32 word);
          dpo3 = dpo2[dim - 1 := dofs_per_face];
          dpo4 = dpo3[dim := of_nat dim * degree * dofs_per_face]
      in dpo4)"

text \<open>
  Modelled from the spec: \<^verbatim>\<open>GeometryInfo<dim>\<close> and \<^verbatim>\<open>FiniteElementData<dim>\<close> are
  not in the source file. The reference cell is the hypercube: \<open>2 * dim\<close> faces; in 2-D
  4 vertices, 4 lines and 1 quad, in 3-D 8 vertices, 12 lines, 6 quads and 1 hex. A
  built element holds the dofs-per-object layout of the specification: none on the
  objects below the faces, \<open>(degree + 1) ^ (dim - 1)\<close> on a face and
  \<open>dim * degree * (degree + 1) ^ (dim - 1)\<close> in the cell. These are the entries of
  \<^verbatim>\<open>get_rt_dpo_vector\<close>, which the constructor passes on, as long as the number of
  polynomials fits 32 bits (lemma \<open>rt_counts_no_overflow\<close>); an element beyond that
  cannot be built. The number of dofs per cell is the sum over all objects of the
  cell, the number of dofs per face is entry \<open>dim - 1\<close>, the number of dofs per quad
  is entry 2 in 3-D (the quads that are faces) and the element's \<open>degree\<close> member is
  the constructor's argument plus one (the constructor passes \<open>degree + 1\<close>).
\<close>

definition dofs_per_object :: "nat \<Rightarrow> nat \<Rightarrow> nat list" where
  "dofs_per_object dim degree =
     replicate (dim - 1) 0 @ [(degree + 1) ^ (dim - 1), dim * degree * (degree + 1) ^ (dim - 1)]"

definition faces_per_cell :: "nat \<Rightarrow> nat" where
  "faces_per_cell dim = 2 * dim"

definition objects_per_cell :: "nat \<Rightarrow> nat list" where
  "objects_per_cell dim =
     (if dim = 2 then [4, 4, 1] else if dim = 3 then [8, 12, 6, 1] else [])"

definition n_dofs_per_cell :: "nat \<Rightarrow> nat \<Rightarrow> nat" where
  "n_dofs_per_cell dim degree =
     sum_list (map (\<lambda>(k, c). k * c) (zip (objects_per_cell dim) (dofs_per_object dim degree)))"

definition n_dofs_per_face :: "nat \<Rightarrow> nat \<Rightarrow> nat" where
  "n_dofs_per_face dim degree = dofs_per_object dim degree ! (dim - 1)"

definition n_dofs_per_quad :: "nat \<Rightarrow> nat \<Rightarrow> nat" where
  "n_dofs_per_quad dim degree = (if dim = 3 then dofs_per_object dim degree ! 2 else 0)"

definition fe_degree :: "nat \<Rightarrow> nat" where
  "fe_degree degree = degree + 1"

subsection \<open>The elements a query can be asked about\<close>

text \<open>
  The argument \<^verbatim>\<open>fe_other\<close> is a \<^verbatim>\<open>FiniteElement<dim>\<close>. The source tells three
  kinds apart by \<^verbatim>\<open>dynamic_cast\<close>: another \<^verbatim>\<open>FE_RaviartThomasNodal<dim>\<close> (given by its
  constructor degree), an \<^verbatim>\<open>FE_Nothing<dim>\<close> (given by its \<^verbatim>\<open>is_dominating\<close> flag) and
  anything else (given by its name and its number of dofs per face).
\<close>

datatype fe =
    FE_RaviartThomasNodal nat
  | FE_Nothing bool
  | FE_Other string nat

subsection \<open>hp identities and domination\<close>

text \<open>\<^verbatim>\<open>hp_vertex_dof_identities\<close>.\<close>

fun hp_vertex_dof_identities :: "nat \<Rightarrow> nat \<Rightarrow> fe \<Rightarrow> exc + (nat \<times> nat) list" where
  "hp_vertex_dof_identities dim degree (FE_RaviartThomasNodal other) = Inr []"
| "hp_vertex_dof_identities dim degree (FE_Nothing dominating) = Inr []"
| "hp_vertex_dof_identities dim degree (FE_Other name dpf) = Inl ExcNotImplemented"

text \<open>
  \<^verbatim>\<open>hp_line_dof_identities\<close>: \<open>p\<close> and \<open>q\<close> are the two \<open>degree\<close> members minus one;
  the loop \<^verbatim>\<open>for (i = 0; i < p + 1; ++i)\<close> appends \<open>(i, i)\<close>.
\<close>

fun hp_line_dof_identities :: "nat \<Rightarrow> nat \<Rightarrow> fe \<Rightarrow> exc + (nat \<times> nat) list" where
  "hp_line_dof_identities dim degree (FE_RaviartThomasNodal other) =
     (if dim \<noteq> 2 then Inr []
      else
        let p = fe_degree degree - 1;
            q = fe_degree other - 1
        in Inr (if p = q then map (\<lambda>i. (i, i)) [0..<p + 1]
                else if p mod 2 = 0 \<and> q mod 2 = 0 then [(p div 2, q div 2)]
                else []))"
| "hp_line_dof_identities dim degree (FE_Nothing dominating) = Inr []"
| "hp_line_dof_identities dim degree (FE_Other name dpf) = Inl ExcNotImplemented"

text \<open>
  \<^verbatim>\<open>hp_quad_dof_identities\<close>: \<open>p\<close> and \<open>q\<close> are the two numbers of dofs per quad. All
  faces of the hypercube carry the same number, so \<open>face_no\<close> does not enter, and an
  \<^verbatim>\<open>FE_RaviartThomasNodal\<close> has one kind of face (\<^verbatim>\<open>n_unique_faces() == 1\<close>).
\<close>

fun hp_quad_dof_identities :: "nat \<Rightarrow> nat \<Rightarrow> fe \<Rightarrow> nat \<Rightarrow> exc + (nat \<times> nat) list" where
  "hp_quad_dof_identities dim degree (FE_RaviartThomasNodal other) face_no =
     (if dim \<noteq> 3 then Inr []
      else
        let p = n_dofs_per_quad dim degree;
            q = n_dofs_per_quad dim other
        in Inr (if p = q then map (\<lambda>i. (i, i)) [0..<p]
                else if p mod 2 \<noteq> 0 \<and> q mod 2 \<noteq> 0 then [(p div 2, q div 2)]
                else []))"
| "hp_quad_dof_identities dim degree (FE_Nothing dominating) face_no = Inr []"
| "hp_quad_dof_identities dim degree (FE_Other name dpf) face_no = Inl ExcNotImplemented"

datatype Domination =
    this_element_dominates
  | other_element_dominates
  | neither_element_dominates
  | either_element_can_dominate
  | no_requirements

text \<open>\<^verbatim>\<open>compare_for_domination\<close>; the comparison is on the \<open>degree\<close> members.\<close>

fun compare_for_domination :: "nat \<Rightarrow> nat \<Rightarrow> fe \<Rightarrow> nat \<Rightarrow> exc + Domination" where
  "compare_for_domination dim degree fe_other codim =
     (if \<not> codim \<le> dim then Inl ExcImpossibleInDim
      else case fe_other of
        FE_RaviartThomasNodal other \<Rightarrow>
          (if fe_degree degree < fe_degree other then Inr this_element_dominates
           else if fe_degree degree = fe_degree other then Inr either_element_can_dominate
           else Inr other_element_dominates)
      | FE_Nothing dominating \<Rightarrow>
          (if dominating then Inr other_element_dominates else Inr no_requirements)
      | FE_Other name dpf \<Rightarrow> Inl ExcNotImplemented)"

subsection \<open>The face orientation tables\<close>

text \<open>
  A \<^verbatim>\<open>Table<2, T>\<close> is read and written at (row, column). The two tables of the
  element belong to the base classes; the function below only writes into them, so
  they are passed in and returned.
\<close>

type_synonym 'a table = "nat \<Rightarrow> nat \<Rightarrow> 'a"

definition table_set :: "'a table \<Rightarrow> nat \<Rightarrow> nat \<Rightarrow> 'a \<Rightarrow> 'a table" where
  "table_set t r c v = t(r := (t r)(c := v))"

record orientation_tables =
  adjust_quad_dof_index_for_face_orientation_table :: "int table"
  adjust_quad_dof_sign_for_face_orientation_table :: "int table"

text \<open>
  The body of the loop over \<open>local\<close> in
  \<^verbatim>\<open>initialize_quad_dof_index_permutation_and_sign_change\<close>. The arithmetic is
  \<^verbatim>\<open>unsigned int\<close> arithmetic: \<open>j + i * n - local\<close> wraps around when the permuted
  index is below \<open>local\<close>, and the assignment to the table's \<^verbatim>\<open>int\<close> entry reads the
  result as a two's complement number (\<open>sint\<close>). The inner loop writes 1 into columns
  0 to 3 of the sign table.
\<close>

definition quad_dof_loop_body :: "32 word \<Rightarrow> 32 word \<Rightarrow> orientation_tables \<Rightarrow> orientation_tables" where
  "quad_dof_loop_body n local T =
     (let i = local mod n;
          j = local div n;
          row = unat local;
          t0 = adjust_quad_dof_index_for_face_orientation_table T;
          t1 = table_set t0 row 0 (sint (j + i * n - local));
          t2 = table_set t1 row 1 (sint (i + (n - 1 - j) * n - local));
          t3 = table_set t2 row 2 (sint ((n - 1 - j) + (n - 1 - i) * n - local));
          t4 = table_set t3 row 3 (sint ((n - 1 - i) + j * n - local));
          t5 = table_set t4 row 4 0;
          t6 = table_set t5 row 5 (sint (j + (n - 1 - i) * n - local));
          t7 = table_set t6 row 6 (sint ((n - 1 - i) + (n - 1 - j) * n - local));
          t8 = table_set t7 row 7 (sint ((n - 1 - j) + i * n - local));
          s = fold (\<lambda>i s. table_set s row i 1) [0..<4]
                (adjust_quad_dof_sign_for_face_orientation_table T)
      in T\<lparr>adjust_quad_dof_index_for_face_orientation_table := t8,
           adjust_quad_dof_sign_for_face_orientation_table := s\<rparr>)"

text \<open>
  \<^verbatim>\<open>initialize_quad_dof_index_permutation_and_sign_change\<close>: nothing for
  \<open>dim < 3\<close>; otherwise \<open>n\<close> is the \<open>degree\<close> member and the loop runs over
  \<open>local = 0, ..., n_dofs_per_quad - 1\<close>.
\<close>

definition initialize_quad_dof_index_permutation_and_sign_change ::
  "nat \<Rightarrow> nat \<Rightarrow> orientation_tables \<Rightarrow> exc + orientation_tables" where
  "initialize_quad_dof_index_permutation_and_sign_change dim degree T =
     (if dim < 3 then Inr T
      else
        let n = (of_nat (fe_degree degree) :: 32 word);
            n_quad = (of_nat (n_dofs_per_quad dim degree) :: 32 word)
        in if n * n \<noteq> n_quad then Inl ExcInternalError
           else Inr (fold (quad_dof_loop_body n) (map of_nat [0..<unat n_quad]) T))"

text \<open>
  The column of a case \<open>(face_orientation, face_flip, face_rotation)\<close>, as the
  source's comments number them (column 0 is all false, column 7 all true), and the
  permuted index of the case as the specification's table gives it.
\<close>

definition orientation_column :: "bool \<Rightarrow> bool \<Rightarrow> bool \<Rightarrow> nat" where
  "orientation_column face_orientation face_flip face_rotation =
     (if face_orientation then 4 else 0) + (if face_flip then 2 else 0)
       + (if face_rotation then 1 else 0)"

definition spec_permuted_index :: "bool \<Rightarrow> bool \<Rightarrow> bool \<Rightarrow> nat \<Rightarrow> nat \<Rightarrow> nat" where
  "spec_permuted_index face_orientation face_flip face_rotation n local =
     (let i = local mod n; j = local div n
      in if \<not> face_orientation \<and> \<not> face_flip \<and> \<not> face_rotation then j + i * n
         else if \<not> face_orientation \<and> \<not> face_flip \<and> face_rotation then i + (n - 1 - j) * n
         else if \<not> face_orientation \<and> face_flip \<and> \<not> face_rotation
           then (n - 1 - j) + (n - 1 - i) * n
         else if \<not> face_orientation \<and> face_flip \<and> face_rotation then (n - 1 - i) + j * n
         else if face_orientation \<and> \<not> face_flip \<and> \<not> face_rotation then local
         else if face_orientation \<and> \<not> face_flip \<and> face_rotation then j + (n - 1 - i) * n
         else if face_orientation \<and> face_flip \<and> \<not> face_rotation
           then (n - 1 - i) + (n - 1 - j) * n
         else (n - 1 - j) + i * n)"

text \<open>The eight unsigned deltas of one row, in column order (used in the proofs).\<close>

definition index_delta_words :: "32 word \<Rightarrow> 32 word \<Rightarrow> 32 word list" where
  "index_delta_words n local =
     (let i = local mod n; j = local div n
      in [j + i * n - local,
          i + (n - 1 - j) * n - local,
          (n - 1 - j) + (n - 1 - i) * n - local,
          (n - 1 - i) + j * n - local,
          0,
          j + (n - 1 - i) * n - local,
          (n - 1 - i) + (n - 1 - j) * n - local,
          (n - 1 - j) + i * n - local])"

text \<open>A pair of tables with every entry 0, as an input to run the function on.\<close>

definition cleared_tables :: orientation_tables where
  "cleared_tables =
     \<lparr>adjust_quad_dof_index_for_face_orientation_table = (\<lambda>local c. 0),
      adjust_quad_dof_sign_for_face_orientation_table = (\<lambda>local c. 0)\<rparr>"

subsection \<open>Face and subface interpolation matrices\<close>

















subsection \<open>Renumbering\<close>

text \<open>
  Modelled from the spec: \<^verbatim>\<open>Utilities::invert_permutation\<close> and
  \<^verbatim>\<open>internal::get_lexicographic_numbering_rt_nodal\<close> are not in the source file. The
  specification calls the second table the inverse of the first: the table that sends
  \<open>permutation ! i\<close> back to \<open>i\<close>. The numbering itself is an argument of the
  constructor's model; the specification says of it that it is a bijection on
  \<open>[0, N)\<close>.
\<close>

definition invert_permutation :: "nat list \<Rightarrow> nat list" where
  "invert_permutation permutation =
     fold (\<lambda>i out. out[permutation ! i := i]) [0..<length permutation]
       (replicate (length permutation) 0)"

record renumbering =
  lexicographic_to_hierarchic :: "nat list"
  hierarchic_to_lexicographic :: "nat list"

definition PolynomialsRaviartThomasNodal_renumbering :: "nat list \<Rightarrow> renumbering" where
  "PolynomialsRaviartThomasNodal_renumbering numbering =
     \<lparr>lexicographic_to_hierarchic = numbering,
      hierarchic_to_lexicographic = invert_permutation numbering\<rparr>"

subsection \<open>From support point values to dof values\<close>

text \<open>
  \<^verbatim>\<open>convert_generalized_support_point_values_to_dof_values\<close> writes into the vector
  \<open>nodal_values\<close> it is given. The state of the model is that vector together with
  the list of the positions assigned so far, in the order of the assignments.
  One assignment \<^verbatim>\<open>nodal_values[k] = support_point_values[k](c)\<close> reads component \<open>c\<close>
  of value \<open>k\<close>; a read or a write outside the vectors ends the call.
\<close>

record 'a dof_values =
  nodal_values :: "'a list"
  assigned :: "nat list"

definition copy_component :: "'a list list \<Rightarrow> nat \<Rightarrow> nat \<Rightarrow> 'a dof_values \<Rightarrow> exc + 'a dof_values" where
  "copy_component support_point_values k c st =
     (if \<not> k < length support_point_values then Inl ExcIndexRange
      else if \<not> c < length (support_point_values ! k) then Inl ExcIndexRange
      else if \<not> k < length (nodal_values st) then Inl ExcIndexRange
      else Inr (st\<lparr>nodal_values := (nodal_values st)[k := support_point_values ! k ! c],
                   assigned := assigned st @ [k]\<rparr>))"

text \<open>A counted \<^verbatim>\<open>for\<close> loop whose body may fail.\<close>

fun for_each :: "('b \<Rightarrow> 's \<Rightarrow> exc + 's) \<Rightarrow> 'b list \<Rightarrow> 's \<Rightarrow> exc + 's" where
  "for_each body [] s = Inr s"
| "for_each body (x # xs) s =
     (case body x s of Inl e \<Rightarrow> Inl e | Inr s' \<Rightarrow> for_each body xs s')"

text \<open>
  The loop over the faces: face \<open>f\<close> copies component \<open>unit_normal_direction[f]\<close> into
  the positions \<open>fbase, ..., fbase + dofs_per_face - 1\<close>, then \<open>fbase\<close> moves on by the
  number of dofs per face (the same for every face of the hypercube). The table
  \<^verbatim>\<open>GeometryInfo<dim>::unit_normal_direction\<close> is not in the source file and is an
  argument.
\<close>

definition face_loop ::
  "nat \<Rightarrow> nat \<Rightarrow> (nat \<Rightarrow> nat) \<Rightarrow> 'a list list \<Rightarrow> nat \<times> 'a dof_values \<Rightarrow> exc + nat \<times> 'a dof_values" where
  "face_loop n_faces dofs_per_face unit_normal_direction support_point_values =
     for_each (\<lambda>f (fbase, st).
         case for_each (\<lambda>i. copy_component support_point_values (fbase + i)
                               (unit_normal_direction f)) [0..<dofs_per_face] st of
           Inl e \<Rightarrow> Inl e
         | Inr st' \<Rightarrow> Inr (fbase + dofs_per_face, st'))
       [0..<n_faces]"

text \<open>
  The \<^verbatim>\<open>while (fbase < n_dofs_per_cell)\<close> loop over the chunks: chunk \<open>f\<close> copies
  component \<open>f\<close> into \<open>istep\<close> positions. Nothing in the loop itself makes it end when
  \<open>istep = 0\<close>, so it is a partial function and its return is proved below.
\<close>

partial_function (option) chunk_loop ::
  "'a list list \<Rightarrow> nat \<Rightarrow> nat \<Rightarrow> nat \<Rightarrow> nat \<Rightarrow> 'a dof_values \<Rightarrow> (exc + nat \<times> 'a dof_values) option" where
  "chunk_loop support_point_values dofs_per_cell istep fbase f st =
     (if fbase < dofs_per_cell then
        (case for_each (\<lambda>i. copy_component support_point_values (fbase + i) f) [0..<istep] st of
           Inl e \<Rightarrow> Some (Inl e)
         | Inr st' \<Rightarrow> chunk_loop support_point_values dofs_per_cell istep (fbase + istep) (f + 1) st')
      else Some (Inr (fbase, st)))"

text \<open>
  The function: the three size checks, the loop over the faces, the split of the
  remaining positions into \<open>dim\<close> chunks and the loop over them, and the final check.
  The first check compares with \<^verbatim>\<open>generalized_support_points.size()\<close>, which the
  constructor has asserted to be the number of dofs per cell.
\<close>

definition convert_generalized_support_point_values_to_dof_values ::
  "nat \<Rightarrow> nat \<Rightarrow> (nat \<Rightarrow> nat) \<Rightarrow> 'a list list \<Rightarrow> 'a list \<Rightarrow> (exc + 'a dof_values) option" where
  "convert_generalized_support_point_values_to_dof_values dim degree unit_normal_direction
       support_point_values nodal =
     (if length support_point_values \<noteq> n_dofs_per_cell dim degree then Some (Inl ExcDimensionMismatch)
      else if length nodal \<noteq> n_dofs_per_cell dim degree then Some (Inl ExcDimensionMismatch)
      else if length (support_point_values ! 0) \<noteq> dim then Some (Inl ExcDimensionMismatch)
      else
        case face_loop (faces_per_cell dim) (n_dofs_per_face dim degree) unit_normal_direction
               support_point_values (0, \<lparr>nodal_values = nodal, assigned = []\<rparr>) of
          Inl e \<Rightarrow> Some (Inl e)
        | Inr (fbase, st) \<Rightarrow>
            let istep = (n_dofs_per_cell dim degree - fbase) div dim
            in if (n_dofs_per_cell dim degree - fbase) mod dim \<noteq> 0 then Some (Inl ExcInternalError)
               else
                 case chunk_loop support_point_values (n_dofs_per_cell dim degree) istep fbase 0 st of
                   None \<Rightarrow> None
                 | Some (Inl e) \<Rightarrow> Some (Inl e)
                 | Some (Inr (fbase', st')) \<Rightarrow>
                     if fbase' \<noteq> n_dofs_per_cell dim degree then Some (Inl ExcInternalError)
                     else Some (Inr st'))"

text \<open>The vector after \<open>k\<close> assignments of component \<open>c\<close> from position \<open>base\<close> on
  (used in the proofs).\<close>

definition copied :: "'a list list \<Rightarrow> nat \<Rightarrow> nat \<Rightarrow> nat \<Rightarrow> 'a list \<Rightarrow> 'a list" where
  "copied spv base c k nv = fold (\<lambda>i nv. nv[base + i := spv ! (base + i) ! c]) [0..<k] nv"

section \<open>Properties\<close>

lemma dofs_per_face_fold:
  "fold (\<lambda>d acc. acc * x) [1..<dim] (1::'a::comm_monoid_mult) = x ^ (dim - 1)"
proof (induction dim)
  case 0
  show ?case by simp
next
  case (Suc k)
  show ?case
  proof (cases k)
    case 0
    then show ?thesis by simp
  next
    case (Suc j)
    with Suc.IH show ?thesis by (simp add: mult.commute)
  qed
qed

lemma get_rt_dpo_vector_2:
  "get_rt_dpo_vector 2 d = [0, d + 1, 2 * d * (d + 1)]"
  by (simp add: get_rt_dpo_vector_def Let_def dofs_per_face_fold numeral_2_eq_2 numeral_3_eq_3)

lemma get_rt_dpo_vector_3:
  "get_rt_dpo_vector 3 d = [0, 0, (d + 1) ^ 2, 3 * d * (d + 1) ^ 2]"
  by (simp add: get_rt_dpo_vector_def Let_def dofs_per_face_fold numeral_2_eq_2 numeral_3_eq_3)

lemma unat_u32:
  assumes "k < 2 ^ 32"
  shows "unat (of_nat k :: 32 word) = k"
  using assms by (simp add: unat_of_nat)

lemma dofs_per_object_2: "dofs_per_object 2 d = [0, d + 1, 2 * d * (d + 1)]"
  by (simp add: dofs_per_object_def)

lemma dofs_per_object_3: "dofs_per_object 3 d = [0, 0, (d + 1) ^ 2, 3 * d * (d + 1) ^ 2]"
  by (simp add: dofs_per_object_def numeral_2_eq_2)

lemma n_dofs_per_face_eq:
  "dim = 2 \<or> dim = 3 \<Longrightarrow> n_dofs_per_face dim d = (d + 1) ^ (dim - 1)"
  by (auto simp: n_dofs_per_face_def dofs_per_object_2 dofs_per_object_3)

lemma n_dofs_per_quad_3: "n_dofs_per_quad 3 d = (d + 1) ^ 2"
  by (simp add: n_dofs_per_quad_def dofs_per_object_3)

lemma n_dofs_per_cell_2: "n_dofs_per_cell 2 d = 2 * (d + 2) * (d + 1)"
  by (simp add: n_dofs_per_cell_def objects_per_cell_def dofs_per_object_2 algebra_simps)

lemma n_dofs_per_cell_3: "n_dofs_per_cell 3 d = 3 * (d + 2) * (d + 1) ^ 2"
  by (simp add: n_dofs_per_cell_def objects_per_cell_def dofs_per_object_3 algebra_simps)

lemma rt_counts_no_overflow:
  fixes d :: nat
  assumes dim: "dim = 2 \<or> dim = 3"
    and N: "dim * (d + 2) * (d + 1) ^ (dim - 1) < 2 ^ 32"
  shows "unat (n_polynomials dim (of_nat d)) = dim * (d + 2) * (d + 1) ^ (dim - 1)"
    and "map unat (get_rt_dpo_vector dim (of_nat d)) = dofs_per_object dim d"
proof -
  let ?N = "dim * (d + 2) * (d + 1) ^ (dim - 1)"
  have np: "n_polynomials dim (of_nat d) = of_nat ?N"
    unfolding n_polynomials_def
    by (simp only: of_nat_mult of_nat_add of_nat_power of_nat_numeral of_nat_1)
  show "unat (n_polynomials dim (of_nat d)) = ?N"
    unfolding np using N by (rule unat_u32)
  have face: "(d + 1) ^ (dim - 1) \<le> ?N"
  proof -
    have "1 * (d + 1) ^ (dim - 1) \<le> (dim * (d + 2)) * (d + 1) ^ (dim - 1)"
      using dim by (intro mult_le_mono1) auto
    then show ?thesis by simp
  qed
  have cell: "dim * d * (d + 1) ^ (dim - 1) \<le> ?N"
    by (intro mult_le_mono1 mult_le_mono2) simp
  have uf: "unat (of_nat ((d + 1) ^ (dim - 1)) :: 32 word) = (d + 1) ^ (dim - 1)"
    using face N by (intro unat_u32) linarith
  have uc: "unat (of_nat (dim * d * (d + 1) ^ (dim - 1)) :: 32 word) = dim * d * (d + 1) ^ (dim - 1)"
    using cell N by (intro unat_u32) linarith
  from dim show "map unat (get_rt_dpo_vector dim (of_nat d)) = dofs_per_object dim d"
  proof
    assume d2: "dim = 2"
    have "get_rt_dpo_vector 2 (of_nat d) = [0, of_nat (d + 1), of_nat (2 * d * (d + 1))]"
      unfolding get_rt_dpo_vector_2
      by (simp only: of_nat_mult of_nat_add of_nat_numeral of_nat_1)
    moreover have "unat (of_nat (d + 1) :: 32 word) = d + 1"
      "unat (of_nat (2 * d * (d + 1)) :: 32 word) = 2 * d * (d + 1)"
      using uf uc unfolding d2 by simp_all
    ultimately show ?thesis
      unfolding d2 dofs_per_object_2 by (simp only: list.map unat_0)
  next
    assume d3: "dim = 3"
    have "get_rt_dpo_vector 3 (of_nat d) =
        [0, 0, of_nat ((d + 1) ^ 2), of_nat (3 * d * (d + 1) ^ 2)]"
      unfolding get_rt_dpo_vector_3
      by (simp only: of_nat_mult of_nat_add of_nat_power of_nat_numeral of_nat_1)
    moreover have "unat (of_nat ((d + 1) ^ 2) :: 32 word) = (d + 1) ^ 2"
      "unat (of_nat (3 * d * (d + 1) ^ 2) :: 32 word) = 3 * d * (d + 1) ^ 2"
      using uf uc unfolding d3 by simp_all
    ultimately show ?thesis
      unfolding d3 dofs_per_object_3 by (simp only: list.map unat_0)
  qed
qed

subsection \<open>Counts\<close>

text \<open>
  C5, as the code has it. For \<open>dim\<close> 2 or 3 and every degree \<open>d\<close> whose number
  \<open>N = dim * (d + 2) * (d + 1) ^ (dim - 1)\<close> is below \<open>2 ^ 32\<close>: the number of
  polynomials is \<open>N\<close>; the dofs-per-object vector has \<open>dim + 1\<close> entries, 0 for
  vertices, \<open>(d + 1) ^ (dim - 1)\<close> at the face entry \<open>dim - 1\<close> and
  \<open>dim * d * (d + 1) ^ (dim - 1)\<close> at the cell entry \<open>dim\<close>; the edge entry 1 is 0 in
  3-D, while in 2-D it is the face entry and holds \<open>d + 1\<close>; the entries, each taken
  once for every object of its kind in the cell, sum to \<open>N\<close>.
\<close>

theorem rt_dof_counts:
  assumes "dim = 2 \<or> dim = 3"
    and "dim * (unat degree + 2) * (unat degree + 1) ^ (dim - 1) < 2 ^ 32"
  shows "unat (n_polynomials dim degree) = dim * (unat degree + 2) * (unat degree + 1) ^ (dim - 1)
       \<and> length (get_rt_dpo_vector dim degree) = dim + 1
       \<and> unat (get_rt_dpo_vector dim degree ! 0) = 0
       \<and> unat (get_rt_dpo_vector dim degree ! 1) = (if dim = 3 then 0 else unat degree + 1)
       \<and> unat (get_rt_dpo_vector dim degree ! (dim - 1)) = (unat degree + 1) ^ (dim - 1)
       \<and> unat (get_rt_dpo_vector dim degree ! dim)
           = dim * unat degree * (unat degree + 1) ^ (dim - 1)
       \<and> sum_list (map (\<lambda>(k, c). k * unat c)
             (zip (objects_per_cell dim) (get_rt_dpo_vector dim degree)))
           = unat (n_polynomials dim degree)"
proof -
  let ?d = "unat degree"
  have deg: "of_nat ?d = degree"
    by simp
  note r = rt_counts_no_overflow [OF assms, unfolded deg]
  have len: "length (get_rt_dpo_vector dim degree) = dim + 1"
    using assms(1) by (auto simp: get_rt_dpo_vector_2 get_rt_dpo_vector_3)
  have nth: "unat (get_rt_dpo_vector dim degree ! k) = dofs_per_object dim ?d ! k" if "k \<le> dim" for k
  proof -
    have "map unat (get_rt_dpo_vector dim degree) ! k = dofs_per_object dim ?d ! k"
      by (simp only: r(2))
    then show ?thesis
      using that len by simp
  qed
  have sum: "sum_list (map (\<lambda>(k, c). k * unat c)
             (zip (objects_per_cell dim) (get_rt_dpo_vector dim degree)))
      = sum_list (map (\<lambda>(k, c). k * c) (zip (objects_per_cell dim) (dofs_per_object dim ?d)))"
  proof -
    have "map (\<lambda>(k, c). k * unat c) (zip (objects_per_cell dim) (get_rt_dpo_vector dim degree))
        = map (\<lambda>(k, c). k * c)
            (zip (objects_per_cell dim) (map unat (get_rt_dpo_vector dim degree)))"
      by (simp add: zip_map2 case_prod_unfold)
    then show ?thesis
      by (simp only: r(2))
  qed
  from assms(1) show ?thesis
  proof
    assume "dim = 2"
    then show ?thesis
      using nth [of 0] nth [of 1] nth [of 2] len
      unfolding r(1) sum
      by (simp add: dofs_per_object_2 objects_per_cell_def algebra_simps)
  next
    assume "dim = 3"
    then show ?thesis
      using nth [of 0] nth [of 1] nth [of 2] nth [of 3] len
      unfolding r(1) sum
      by (simp add: dofs_per_object_3 objects_per_cell_def algebra_simps)
  qed
qed

theorem rt_dof_counts_witness:
  "unat (n_polynomials 3 1) = 36 \<and> unat (get_rt_dpo_vector 3 1 ! 2) = 4
   \<and> unat (get_rt_dpo_vector 3 1 ! 3) = 12
   \<and> sum_list (map (\<lambda>(k, c). k * unat c) (zip (objects_per_cell 3) (get_rt_dpo_vector 3 1))) = 36"
proof -
  have a: "(3::nat) = 2 \<or> (3::nat) = 3"
    by simp
  have b: "3 * (unat (1 :: 32 word) + 2) * (unat (1 :: 32 word) + 1) ^ (3 - 1) < (2::nat) ^ 32"
    by (simp add: power2_eq_square)
  from rt_dof_counts [OF a b] show ?thesis
    by (simp add: power2_eq_square)
qed

text \<open>
  C5 as stated fails twice. In 2-D the vector is \<open>[vertex, line, quad]\<close>, the lines are
  the faces, and the edge entry of the lowest-order element is 1, not 0. And the
  products are products of \<^verbatim>\<open>unsigned int\<close>: in 3-D the number of polynomials of
  degree 1200 is \<open>3 * 1202 * 1201 ^ 2 = 5201298006\<close>, and the function returns it
  modulo \<open>2 ^ 32\<close>.
\<close>

theorem rt_dof_counts_counterexample:
  "get_rt_dpo_vector 2 0 ! 1 = 1 \<and> n_polynomials 3 1200 = 906330710"
  by (simp add: get_rt_dpo_vector_2 n_polynomials_def)

subsection \<open>hp identities\<close>

text \<open>
  C6. In 2-D the line identities of two elements of the family with constructor
  degrees \<open>p\<close> and \<open>q\<close> are the pairs \<open>(i, i)\<close> for \<open>i = 0, ..., p\<close> when \<open>p = q\<close>, the
  single pair \<open>(p div 2, q div 2)\<close> when \<open>p\<close> and \<open>q\<close> differ and are both even, and
  none otherwise. In any other dimension there are none.
\<close>

theorem hp_line_dof_identities_family:
  "hp_line_dof_identities dim p (FE_RaviartThomasNodal q) =
     Inr (if dim \<noteq> 2 then []
          else if p = q then zip [0..<p + 1] [0..<p + 1]
          else if even p \<and> even q then [(p div 2, q div 2)]
          else [])"
  by (simp add: fe_degree_def Let_def even_iff_mod_2_eq_zero zip_same_conv_map)

theorem hp_line_dof_identities_family_witness:
  "hp_line_dof_identities 2 0 (FE_RaviartThomasNodal 0) = Inr [(0, 0)]
   \<and> hp_line_dof_identities 2 1 (FE_RaviartThomasNodal 2) = Inr []
   \<and> hp_line_dof_identities 2 0 (FE_RaviartThomasNodal 2) = Inr [(0, 1)]
   \<and> hp_line_dof_identities 3 0 (FE_RaviartThomasNodal 0) = Inr []"
  using hp_line_dof_identities_family [of 2 0 0] hp_line_dof_identities_family [of 2 1 2]
    hp_line_dof_identities_family [of 2 0 2] hp_line_dof_identities_family [of 3 0 0]
  by simp

text \<open>
  C7. In 3-D the quad identities of two elements of the family with \<open>p\<close> and \<open>q\<close> dofs
  per face are the pairs \<open>(i, i)\<close> for \<open>i = 0, ..., p - 1\<close> when \<open>p = q\<close>, the single
  pair \<open>(p div 2, q div 2)\<close> when \<open>p\<close> and \<open>q\<close> differ and are both odd, and none
  otherwise. In any other dimension there are none.
\<close>

theorem hp_quad_dof_identities_family:
  "hp_quad_dof_identities dim d (FE_RaviartThomasNodal e) face_no =
     Inr (if dim \<noteq> 3 then []
          else if n_dofs_per_face dim d = n_dofs_per_face dim e
            then zip [0..<n_dofs_per_face dim d] [0..<n_dofs_per_face dim d]
          else if odd (n_dofs_per_face dim d) \<and> odd (n_dofs_per_face dim e)
            then [(n_dofs_per_face dim d div 2, n_dofs_per_face dim e div 2)]
          else [])"
proof (cases "dim = 3")
  case False
  then show ?thesis by simp
next
  case True
  have z: "map (\<lambda>i. (i, i)) [0..<k] = zip [0..<k] [0..<k]" for k :: nat
    by (simp add: zip_same_conv_map)
  have q: "n_dofs_per_quad 3 k = n_dofs_per_face 3 k" for k
    by (simp add: n_dofs_per_quad_def n_dofs_per_face_def)
  show ?thesis
    unfolding True hp_quad_dof_identities.simps q Let_def z odd_iff_mod_2_eq_one
    by simp
qed

theorem hp_quad_dof_identities_family_witness:
  "hp_quad_dof_identities 3 0 (FE_RaviartThomasNodal 2) 0 = Inr [(0, 4)]
   \<and> hp_quad_dof_identities 3 0 (FE_RaviartThomasNodal 1) 0 = Inr []
   \<and> hp_quad_dof_identities 3 0 (FE_RaviartThomasNodal 0) 0 = Inr [(0, 0)]
   \<and> hp_quad_dof_identities 2 0 (FE_RaviartThomasNodal 0) 0 = Inr []"
  using hp_quad_dof_identities_family [of 3 0 2 0] hp_quad_dof_identities_family [of 3 0 1 0]
    hp_quad_dof_identities_family [of 3 0 0 0] hp_quad_dof_identities_family [of 2 0 0 0]
  by (simp add: n_dofs_per_face_eq power2_eq_square)

subsection \<open>Domination\<close>

text \<open>
  C8. For a codimension within the dimension: against an element of the family, this
  element dominates when its degree is lower, either may dominate when the degrees are
  equal, and the other dominates when its degree is higher; against an
  \<^verbatim>\<open>FE_Nothing\<close> the other dominates if it is marked dominating, and there are no
  requirements otherwise.
\<close>

theorem compare_for_domination_cases:
  assumes "codim \<le> dim"
  shows "compare_for_domination dim p (FE_RaviartThomasNodal q) codim =
           Inr (if p < q then this_element_dominates
                else if p = q then either_element_can_dominate
                else other_element_dominates)
       \<and> compare_for_domination dim p (FE_Nothing dominating) codim =
           Inr (if dominating then other_element_dominates else no_requirements)"
  using assms by (simp add: fe_degree_def)

theorem compare_for_domination_cases_witness:
  "compare_for_domination 2 1 (FE_RaviartThomasNodal 2) 1 = Inr this_element_dominates
   \<and> compare_for_domination 2 1 (FE_Nothing True) 1 = Inr other_element_dominates"
  using compare_for_domination_cases [of 1 2 1 2 True] by simp

subsection \<open>Face orientation tables\<close>

lemma s32_diff:
  assumes "a < 2 ^ 31" "b < 2 ^ 31"
  shows "sint ((of_nat a :: 32 word) - of_nat b) = int a - int b"
proof -
  have "(of_nat a :: 32 word) - of_nat b = word_of_int (int a - int b)"
    by simp
  moreover have "sint (word_of_int (int a - int b) :: 32 word) = signed_take_bit 31 (int a - int b)"
    unfolding sint_sbintrunc' by simp
  moreover have "signed_take_bit 31 (int a - int b) = int a - int b"
    using assms by (intro signed_take_bit_int_eq_self) auto
  ultimately show ?thesis by simp
qed

lemma table_set_apply:
  "table_set t r c v r' c' = (if r' = r \<and> c' = c then v else t r' c')"
  by (simp add: table_set_def)

lemma length_index_delta_words: "length (index_delta_words n local) = 8"
  by (simp add: index_delta_words_def Let_def)

lemma less_8_cases: "c < (8::nat) \<Longrightarrow> c = 0 \<or> c = 1 \<or> c = 2 \<or> c = 3 \<or> c = 4 \<or> c = 5 \<or> c = 6 \<or> c = 7"
  by arith

lemma loop_body_index:
  "adjust_quad_dof_index_for_face_orientation_table (quad_dof_loop_body n local T) r c =
     (if r = unat local \<and> c < 8 then sint (index_delta_words n local ! c)
      else adjust_quad_dof_index_for_face_orientation_table T r c)"
proof (cases "r = unat local \<and> c < 8")
  case False
  then show ?thesis
    by (auto simp: quad_dof_loop_body_def Let_def table_set_apply)
next
  case True
  then have "c = 0 \<or> c = 1 \<or> c = 2 \<or> c = 3 \<or> c = 4 \<or> c = 5 \<or> c = 6 \<or> c = 7"
    using less_8_cases by blast
  with True show ?thesis
    by (auto simp: quad_dof_loop_body_def Let_def table_set_apply index_delta_words_def)
qed

lemma loop_body_sign:
  "adjust_quad_dof_sign_for_face_orientation_table (quad_dof_loop_body n local T) r c =
     (if r = unat local \<and> c < 4 then 1
      else adjust_quad_dof_sign_for_face_orientation_table T r c)"
proof -
  have "[0..<4] = [0, 1, 2, 3::nat]"
    by (simp add: upt_rec)
  then show ?thesis
    by (auto simp: quad_dof_loop_body_def Let_def table_set_apply)
qed

lemma fold_loop_body_index:
  assumes "k \<le> 2 ^ 32"
  shows "adjust_quad_dof_index_for_face_orientation_table
           (fold (quad_dof_loop_body n) (map of_nat [0..<k]) T) r c =
         (if r < k \<and> c < 8 then sint (index_delta_words n (of_nat r) ! c)
          else adjust_quad_dof_index_for_face_orientation_table T r c)"
  using assms
proof (induction k)
  case 0
  show ?case by simp
next
  case (Suc k)
  then have k: "k < 2 ^ 32" and le: "k \<le> 2 ^ 32"
    by simp_all
  have u: "unat (of_nat k :: 32 word) = k"
    using k by (rule unat_u32)
  have st: "fold (quad_dof_loop_body n) (map of_nat [0..<Suc k]) T =
      quad_dof_loop_body n (of_nat k) (fold (quad_dof_loop_body n) (map of_nat [0..<k]) T)"
    by simp
  show ?case
    unfolding st loop_body_index u Suc.IH [OF le]
    by (cases "r = k") auto
qed

lemma fold_loop_body_sign:
  assumes "k \<le> 2 ^ 32"
  shows "adjust_quad_dof_sign_for_face_orientation_table
           (fold (quad_dof_loop_body n) (map of_nat [0..<k]) T) r c =
         (if r < k \<and> c < 4 then 1
          else adjust_quad_dof_sign_for_face_orientation_table T r c)"
  using assms
proof (induction k)
  case 0
  show ?case by simp
next
  case (Suc k)
  then have k: "k < 2 ^ 32" and le: "k \<le> 2 ^ 32"
    by simp_all
  have u: "unat (of_nat k :: 32 word) = k"
    using k by (rule unat_u32)
  have st: "fold (quad_dof_loop_body n) (map of_nat [0..<Suc k]) T =
      quad_dof_loop_body n (of_nat k) (fold (quad_dof_loop_body n) (map of_nat [0..<k]) T)"
    by simp
  show ?case
    unfolding st loop_body_sign u Suc.IH [OF le]
    by (cases "r = k") auto
qed

lemma square_index_bound:
  fixes a b N :: nat
  assumes "a < N" "b < N"
  shows "a + b * N < N * N"
proof -
  obtain m where m: "N = Suc m"
    using assms by (cases N) auto
  have "b \<le> m"
    using assms m by simp
  then have "b * N \<le> m * N"
    by (rule mult_le_mono1)
  moreover have "m * N + N = N * N"
    by (simp add: m)
  ultimately show ?thesis
    using assms by linarith
qed

lemma word_reflect:
  fixes j N :: nat
  assumes "j < N"
  shows "(of_nat N :: 32 word) - 1 - of_nat j = of_nat (N - 1 - j)"
  using assms by (simp add: of_nat_diff)

lemma index_delta_words_nat:
  fixes N r :: nat
  assumes N: "N * N \<le> 2 ^ 31" and r: "r < N * N"
  defines "i \<equiv> r mod N" and "j \<equiv> r div N"
  shows "map sint (index_delta_words (of_nat N) (of_nat r)) =
     [int (j + i * N) - int r,
      int (i + (N - 1 - j) * N) - int r,
      int ((N - 1 - j) + (N - 1 - i) * N) - int r,
      int ((N - 1 - i) + j * N) - int r,
      0,
      int (j + (N - 1 - i) * N) - int r,
      int ((N - 1 - i) + (N - 1 - j) * N) - int r,
      int ((N - 1 - j) + i * N) - int r]"
proof -
  have N0: "0 < N" using r by (cases N) auto
  have NN: "N \<le> N * N" using N0 by simp
  have r31: "r < 2 ^ 31" and N31: "N \<le> 2 ^ 31"
    using N r NN by linarith+
  have N32: "N < 2 ^ 32" and r32: "r < 2 ^ 32"
    using r31 N31 by simp_all
  have i: "i < N" and j: "j < N"
    using N0 r by (simp_all add: i_def j_def less_mult_imp_div_less)
  have ri: "N - 1 - i < N" and rj: "N - 1 - j < N"
    using N0 by simp_all
  have wi: "(of_nat r :: 32 word) mod of_nat N = of_nat i"
    by (simp add: word_arith_nat_mod unat_u32 [OF N32] unat_u32 [OF r32] i_def)
  have wj: "(of_nat r :: 32 word) div of_nat N = of_nat j"
    by (simp add: word_arith_nat_div unat_u32 [OF N32] unat_u32 [OF r32] j_def)
  have b: "a + b * N < 2 ^ 31" if "a < N" "b < N" for a b
    using square_index_bound [OF that] N by simp
  have d: "sint ((of_nat a :: 32 word) + of_nat b * of_nat N - of_nat r)
             = int (a + b * N) - int r" if "a < N" "b < N" for a b
    using s32_diff [OF b [OF that] r31] by simp
  show ?thesis
    unfolding index_delta_words_def Let_def wi wj word_reflect [OF i] word_reflect [OF j]
    by (simp only: list.map d i j ri rj sint_0)
qed

lemma initialize_quad_3:
  assumes "(degree + 1) ^ 2 < (2::nat) ^ 32"
  shows "initialize_quad_dof_index_permutation_and_sign_change 3 degree T =
     Inr (fold (quad_dof_loop_body (of_nat (degree + 1)))
            (map of_nat [0..<(degree + 1) ^ 2]) T)"
proof -
  have "(of_nat (degree + 1) :: 32 word) * of_nat (degree + 1) = of_nat ((degree + 1) ^ 2)"
    by (simp only: power2_eq_square of_nat_mult)
  moreover have "unat (of_nat ((degree + 1) ^ 2) :: 32 word) = (degree + 1) ^ 2"
    using assms by (rule unat_u32)
  ultimately show ?thesis
    unfolding initialize_quad_dof_index_permutation_and_sign_change_def Let_def
      n_dofs_per_quad_3 fe_degree_def
    by (simp del: of_nat_add of_nat_Suc add: power2_eq_square)
qed

lemma orientation_column_less: "orientation_column a b c < 8"
  by (simp add: orientation_column_def)

lemma spec_permuted_index_nth:
  "int (spec_permuted_index a b c N r) - int r =
     [int (r div N + r mod N * N) - int r,
      int (r mod N + (N - 1 - r div N) * N) - int r,
      int ((N - 1 - r div N) + (N - 1 - r mod N) * N) - int r,
      int ((N - 1 - r mod N) + r div N * N) - int r,
      0,
      int (r div N + (N - 1 - r mod N) * N) - int r,
      int ((N - 1 - r mod N) + (N - 1 - r div N) * N) - int r,
      int ((N - 1 - r div N) + r mod N * N) - int r] ! orientation_column a b c"
  by (cases a; cases b; cases c) (simp_all add: spec_permuted_index_def orientation_column_def)

text \<open>
  C2. In 3-D, with \<open>n = degree + 1\<close> and \<open>n * n\<close> within the range of the table's
  \<^verbatim>\<open>int\<close> entries: for every local index below \<open>n * n\<close> and each of the eight cases,
  the entry of the index table is the permuted index of the specification's table
  minus the local index; when \<open>n = 1\<close> all eight entries are 0.
\<close>

theorem quad_dof_index_deltas:
  assumes "(degree + 1) ^ 2 \<le> (2::nat) ^ 31" and "local < (degree + 1) ^ 2"
  shows "\<exists>T'. initialize_quad_dof_index_permutation_and_sign_change 3 degree T = Inr T'
     \<and> (\<forall>face_orientation face_flip face_rotation.
          adjust_quad_dof_index_for_face_orientation_table T' local
            (orientation_column face_orientation face_flip face_rotation)
          = int (spec_permuted_index face_orientation face_flip face_rotation (degree + 1) local)
              - int local)
     \<and> (degree = 0 \<longrightarrow>
          (\<forall>c < 8. adjust_quad_dof_index_for_face_orientation_table T' local c = 0))"
proof -
  let ?N = "degree + 1"
  let ?T = "fold (quad_dof_loop_body (of_nat ?N)) (map of_nat [0..<?N ^ 2]) T"
  have lt: "?N ^ 2 < (2::nat) ^ 32" and le: "?N ^ 2 \<le> (2::nat) ^ 32"
    using assms(1) by simp_all
  have NN: "?N * ?N \<le> 2 ^ 31" and r: "local < ?N * ?N"
    using assms by (simp_all add: power2_eq_square)
  have entry: "adjust_quad_dof_index_for_face_orientation_table ?T local c =
      map sint (index_delta_words (of_nat ?N) (of_nat local)) ! c" if "c < 8" for c
  proof -
    have "adjust_quad_dof_index_for_face_orientation_table ?T local c =
        sint (index_delta_words (of_nat ?N) (of_nat local) ! c)"
      unfolding fold_loop_body_index [OF le] using that assms(2) by (simp only: simp_thms if_True)
    then show ?thesis
      using that by (simp only: nth_map length_index_delta_words)
  qed
  have "adjust_quad_dof_index_for_face_orientation_table ?T local (orientation_column a b c)
      = int (spec_permuted_index a b c ?N local) - int local" for a b c
    unfolding entry [OF orientation_column_less] index_delta_words_nat [OF NN r]
      spec_permuted_index_nth ..
  moreover have "adjust_quad_dof_index_for_face_orientation_table ?T local c = 0"
    if "degree = 0" "c < 8" for c
  proof -
    from that assms(2) have l0: "local = 0" by simp
    from less_8_cases [OF that(2)] show ?thesis
      unfolding entry [OF that(2)] index_delta_words_nat [OF NN r]
      by (auto simp: that(1) l0)
  qed
  ultimately show ?thesis
    unfolding initialize_quad_3 [OF lt] by blast
qed

text \<open>
  C1, as the code has it. The loop over the sign table runs over columns 0 to 3 (the
  cases with \<open>face_orientation = false\<close>): for every local index these four entries are
  1, and the entries of columns 4 and above are the ones the table held before.
\<close>

theorem quad_dof_sign_columns:
  assumes "(degree + 1) ^ 2 < (2::nat) ^ 32" and "local < (degree + 1) ^ 2"
  shows "\<exists>T'. initialize_quad_dof_index_permutation_and_sign_change 3 degree T = Inr T'
     \<and> (\<forall>c < 4. adjust_quad_dof_sign_for_face_orientation_table T' local c = 1)
     \<and> (\<forall>c \<ge> 4. adjust_quad_dof_sign_for_face_orientation_table T' local c =
                   adjust_quad_dof_sign_for_face_orientation_table T local c)"
proof -
  let ?T = "fold (quad_dof_loop_body (of_nat (degree + 1)))
              (map of_nat [0..<(degree + 1) ^ 2]) T"
  have le: "(degree + 1) ^ 2 \<le> (2::nat) ^ 32"
    using assms(1) by simp
  have "adjust_quad_dof_sign_for_face_orientation_table ?T local c = 1" if "c < 4" for c
    unfolding fold_loop_body_sign [OF le] using that assms(2) by (simp only: simp_thms if_True)
  moreover have "adjust_quad_dof_sign_for_face_orientation_table ?T local c =
      adjust_quad_dof_sign_for_face_orientation_table T local c" if "4 \<le> c" for c
    unfolding fold_loop_body_sign [OF le] using that by simp
  ultimately show ?thesis
    unfolding initialize_quad_3 [OF assms(1)] by blast
qed

text \<open>
  C1 as stated fails: run on tables that hold 0 everywhere, the lowest-order element
  in 3-D ends with 1 in column 0 and with 0 in column 4 of row 0. The eight columns of
  the row do not hold one and the same value, whichever of the two values stands for
  the sign +1.
\<close>

theorem quad_dof_sign_counterexample:
  "map_sum id (\<lambda>T'. (adjust_quad_dof_sign_for_face_orientation_table T' 0 0,
                      adjust_quad_dof_sign_for_face_orientation_table T' 0 4))
     (initialize_quad_dof_index_permutation_and_sign_change 3 0 cleared_tables) = Inr (1, 0)"
proof -
  have "(0 + 1) ^ 2 < (2::nat) ^ 32" by simp
  from initialize_quad_3 [OF this] show ?thesis
    by (simp add: loop_body_sign cleared_tables_def)
qed

theorem quad_dof_index_deltas_witness:
  "\<exists>T'. initialize_quad_dof_index_permutation_and_sign_change 3 2 cleared_tables = Inr T'
     \<and> adjust_quad_dof_index_for_face_orientation_table T' 5 0 = 2
     \<and> adjust_quad_dof_index_for_face_orientation_table T' 5 2 = - 4
     \<and> adjust_quad_dof_index_for_face_orientation_table T' 5 4 = 0"
proof -
  have a: "(2 + 1) ^ 2 \<le> (2::nat) ^ 31" and b: "(5::nat) < (2 + 1) ^ 2"
    by (simp_all add: power2_eq_square)
  have c: "orientation_column False False False = 0" "orientation_column False True False = 2"
    "orientation_column True False False = 4"
    by (simp_all add: orientation_column_def)
  have v: "int (spec_permuted_index False False False (2 + 1) 5) - int 5 = 2"
    "int (spec_permuted_index False True False (2 + 1) 5) - int 5 = - 4"
    "int (spec_permuted_index True False False (2 + 1) 5) - int 5 = 0"
    by (simp_all add: spec_permuted_index_def)
  from quad_dof_index_deltas [OF a b, of cleared_tables]
  obtain T' where T: "initialize_quad_dof_index_permutation_and_sign_change 3 2 cleared_tables = Inr T'"
    and idx: "\<And>a b c. adjust_quad_dof_index_for_face_orientation_table T' 5 (orientation_column a b c)
          = int (spec_permuted_index a b c (2 + 1) 5) - int 5"
    by blast
  from idx [of False False False] idx [of False True False] idx [of True False False]
  have "adjust_quad_dof_index_for_face_orientation_table T' 5 0 = 2
     \<and> adjust_quad_dof_index_for_face_orientation_table T' 5 2 = - 4
     \<and> adjust_quad_dof_index_for_face_orientation_table T' 5 4 = 0"
    unfolding c v by blast
  with T show ?thesis by blast
qed

theorem quad_dof_sign_columns_witness:
  "\<exists>T'. initialize_quad_dof_index_permutation_and_sign_change 3 1 cleared_tables = Inr T'
     \<and> adjust_quad_dof_sign_for_face_orientation_table T' 3 0 = 1
     \<and> adjust_quad_dof_sign_for_face_orientation_table T' 3 3 = 1
     \<and> adjust_quad_dof_sign_for_face_orientation_table T' 3 4 = 0
     \<and> adjust_quad_dof_sign_for_face_orientation_table T' 3 7 = 0"
proof -
  have a: "(1 + 1) ^ 2 < (2::nat) ^ 32" and b: "(3::nat) < (1 + 1) ^ 2"
    by (simp_all add: power2_eq_square)
  from quad_dof_sign_columns [OF a b, of cleared_tables] show ?thesis
    by (auto simp: cleared_tables_def)
qed

subsection \<open>Interpolation matrices\<close>










subsection \<open>Renumbering\<close>

lemma scatter_length:
  "length (fold (\<lambda>i out. out[p ! i := i]) [0..<k] out0) = length out0"
  by (induction k) simp_all

lemma scatter_nth:
  assumes "distinct p" and "k \<le> length p" and "\<forall>x \<in> set p. x < length out0"
    and "i < k"
  shows "fold (\<lambda>i out. out[p ! i := i]) [0..<k] out0 ! (p ! i) = i"
  using assms(2,4)
proof (induction k)
  case 0
  then show ?case by simp
next
  case (Suc k)
  let ?out = "fold (\<lambda>i out. out[p ! i := i]) [0..<k] out0"
  have step: "fold (\<lambda>i out. out[p ! i := i]) [0..<Suc k] out0 = ?out[p ! k := k]"
    by simp
  have k: "k < length p"
    using Suc.prems by simp
  show ?case
  proof (cases "i = k")
    case True
    have "p ! k < length ?out"
      using assms(3) k by (simp add: scatter_length)
    then show ?thesis
      unfolding step True by simp
  next
    case False
    then have ik: "i < k"
      using Suc.prems by simp
    then have "p ! i \<noteq> p ! k"
      using assms(1) k by (simp add: nth_eq_iff_index_eq)
    then show ?thesis
      unfolding step using Suc.IH ik k by simp
  qed
qed

lemma invert_permutation_inverse:
  assumes len: "length p = N" and set: "set p = {0..<N}"
  shows "length (invert_permutation p) = N"
    and "i < N \<Longrightarrow> invert_permutation p ! (p ! i) = i"
    and "i < N \<Longrightarrow> invert_permutation p ! i < N"
    and "i < N \<Longrightarrow> p ! (invert_permutation p ! i) = i"
proof -
  have d: "distinct p"
    using len set by (simp add: card_distinct)
  have r: "\<forall>x \<in> set p. x < length (replicate (length p) (0::nat))"
    using len set by simp
  show "length (invert_permutation p) = N"
    by (simp add: invert_permutation_def scatter_length len)
  show left: "invert_permutation p ! (p ! i) = i" if "i < N" for i
    unfolding invert_permutation_def
    using d _ r by (rule scatter_nth) (use that len in simp_all)
  have ex: "\<exists>j < N. p ! j = i" if "i < N" for i
  proof -
    from that set have "i \<in> set p" by simp
    then show ?thesis
      using len by (auto simp: in_set_conv_nth)
  qed
  show "invert_permutation p ! i < N" if "i < N" for i
    using ex [OF that] left by auto
  show "p ! (invert_permutation p ! i) = i" if "i < N" for i
    using ex [OF that] left by auto
qed

text \<open>
  C9. For a numbering that is a bijection on \<open>[0, N)\<close>, \<open>N\<close> the number of polynomials:
  the hierarchic-to-lexicographic table has \<open>N\<close> entries and composing the two tables
  in either order gives the identity on \<open>[0, N)\<close>.
\<close>

theorem renumbering_inverse:
  assumes "length numbering = unat (n_polynomials dim degree)"
    and "set numbering = {0..<unat (n_polynomials dim degree)}"
    and "i < unat (n_polynomials dim degree)"
  shows "length (hierarchic_to_lexicographic (PolynomialsRaviartThomasNodal_renumbering numbering))
           = unat (n_polynomials dim degree)
     \<and> hierarchic_to_lexicographic (PolynomialsRaviartThomasNodal_renumbering numbering)
         ! (lexicographic_to_hierarchic (PolynomialsRaviartThomasNodal_renumbering numbering) ! i) = i
     \<and> lexicographic_to_hierarchic (PolynomialsRaviartThomasNodal_renumbering numbering)
         ! (hierarchic_to_lexicographic (PolynomialsRaviartThomasNodal_renumbering numbering) ! i) = i"
  using invert_permutation_inverse [OF assms(1,2)] assms(3)
  by (simp add: PolynomialsRaviartThomasNodal_renumbering_def)

theorem renumbering_inverse_witness:
  "hierarchic_to_lexicographic (PolynomialsRaviartThomasNodal_renumbering [0, 2, 1, 3]) ! 
     (lexicographic_to_hierarchic (PolynomialsRaviartThomasNodal_renumbering [0, 2, 1, 3]) ! 1) = 1
   \<and> lexicographic_to_hierarchic (PolynomialsRaviartThomasNodal_renumbering [0, 2, 1, 3]) ! 
     (hierarchic_to_lexicographic (PolynomialsRaviartThomasNodal_renumbering [0, 2, 1, 3]) ! 1) = 1"
proof -
  have a: "length [0, 2, 1, 3::nat] = unat (n_polynomials 2 0)"
    by (simp add: n_polynomials_def)
  have b: "set [0, 2, 1, 3::nat] = {0..<unat (n_polynomials 2 0)}"
    by (auto simp: n_polynomials_def)
  have c: "1 < unat (n_polynomials 2 0)"
    by (simp add: n_polynomials_def)
  from renumbering_inverse [OF a b c] show ?thesis by simp
qed

subsection \<open>From support point values to dof values\<close>

lemma for_each_append:
  "for_each body (xs @ ys) s =
     (case for_each body xs s of Inl e \<Rightarrow> Inl e | Inr s' \<Rightarrow> for_each body ys s')"
  by (induction xs arbitrary: s) (auto split: sum.splits)

lemma copied_length: "length (copied spv base c k nv) = length nv"
  by (induction k) (simp_all add: copied_def)

lemma copied_nth:
  assumes "j < length nv"
  shows "copied spv base c k nv ! j =
     (if base \<le> j \<and> j < base + k then spv ! j ! c else nv ! j)"
  using assms
proof (induction k)
  case 0
  then show ?case by (auto simp: copied_def)
next
  case (Suc k)
  have step: "copied spv base c (Suc k) nv =
      (copied spv base c k nv)[base + k := spv ! (base + k) ! c]"
    by (simp add: copied_def)
  show ?case
  proof (cases "j = base + k")
    case True
    then show ?thesis
      unfolding step using Suc.prems by (simp add: copied_length)
  next
    case False
    then show ?thesis
      unfolding step using Suc by auto
  qed
qed

lemma for_each_copy:
  assumes "base + k \<le> length spv" and "base + k \<le> length (nodal_values st)"
    and "\<forall>v \<in> set spv. c < length v"
  shows "for_each (\<lambda>i. copy_component spv (base + i) c) [0..<k] st =
     Inr \<lparr>nodal_values = copied spv base c k (nodal_values st),
          assigned = assigned st @ [base..<base + k]\<rparr>"
  using assms(1,2)
proof (induction k)
  case 0
  then show ?case by (simp add: copied_def)
next
  case (Suc k)
  have c: "c < length (spv ! (base + k))"
    using assms(3) Suc.prems(1) by simp
  have step: "copied spv base c (Suc k) nv =
      (copied spv base c k nv)[base + k := spv ! (base + k) ! c]" for nv
    by (simp add: copied_def)
  have IH: "for_each (\<lambda>i. copy_component spv (base + i) c) [0..<k] st =
     Inr \<lparr>nodal_values = copied spv base c k (nodal_values st),
          assigned = assigned st @ [base..<base + k]\<rparr>"
    using Suc by simp
  have u: "[0..<Suc k] = [0..<k] @ [k]"
    by simp
  show ?case
    unfolding u for_each_append IH step
    using Suc.prems c by (simp add: copy_component_def copied_length)
qed

lemma face_loop_run:
  assumes "F * dpf \<le> length spv" and "F * dpf \<le> length nv0"
    and "\<forall>v \<in> set spv. length v = dim" and "\<forall>f < F. und f < dim"
  shows "\<exists>nv. face_loop F dpf und spv (0, \<lparr>nodal_values = nv0, assigned = as0\<rparr>) =
            Inr (F * dpf, \<lparr>nodal_values = nv, assigned = as0 @ [0..<F * dpf]\<rparr>)
          \<and> length nv = length nv0
          \<and> (\<forall>j < length nv0. nv ! j =
                (if j < F * dpf then spv ! j ! und (j div dpf) else nv0 ! j))"
  using assms(1,2,4)
proof (induction F)
  case 0
  show ?case by (simp add: face_loop_def)
next
  case (Suc F)
  have le: "F * dpf + dpf \<le> length spv" "F * dpf + dpf \<le> length nv0"
    using Suc.prems by simp_all
  from Suc obtain nv where run: "face_loop F dpf und spv (0, \<lparr>nodal_values = nv0, assigned = as0\<rparr>) =
            Inr (F * dpf, \<lparr>nodal_values = nv, assigned = as0 @ [0..<F * dpf]\<rparr>)"
    and len: "length nv = length nv0"
    and val: "\<And>j. j < length nv0 \<Longrightarrow> nv ! j =
                (if j < F * dpf then spv ! j ! und (j div dpf) else nv0 ! j)"
    by auto
  let ?st = "\<lparr>nodal_values = nv, assigned = as0 @ [0..<F * dpf]\<rparr>"
  let ?nv = "copied spv (F * dpf) (und F) dpf nv"
  have c: "\<forall>v \<in> set spv. und F < length v"
    using assms(3) Suc.prems(3) by simp
  have inner: "for_each (\<lambda>i. copy_component spv (F * dpf + i) (und F)) [0..<dpf] ?st =
      Inr \<lparr>nodal_values = ?nv, assigned = (as0 @ [0..<F * dpf]) @ [F * dpf..<F * dpf + dpf]\<rparr>"
    using for_each_copy [of "F * dpf" dpf spv ?st "und F"] le c len by simp
  have app: "[0..<F * dpf] @ [F * dpf..<F * dpf + dpf] = [0..<Suc F * dpf]"
  proof -
    have "[0..<F * dpf + dpf] = [0..<F * dpf] @ [F * dpf..<F * dpf + dpf]"
      by (rule upt_add_eq_append) simp
    moreover have "Suc F * dpf = F * dpf + dpf"
      by simp
    ultimately show ?thesis
      by (simp only:)
  qed
  have u: "[0..<Suc F] = [0..<F] @ [F]"
    by simp
  have run': "face_loop (Suc F) dpf und spv (0, \<lparr>nodal_values = nv0, assigned = as0\<rparr>) =
      Inr (Suc F * dpf, \<lparr>nodal_values = ?nv, assigned = as0 @ [0..<Suc F * dpf]\<rparr>)"
    unfolding face_loop_def u for_each_append run [unfolded face_loop_def]
    using inner app by (simp add: add.commute)
  have val': "?nv ! j = (if j < Suc F * dpf then spv ! j ! und (j div dpf) else nv0 ! j)"
    if j: "j < length nv0" for j
  proof (cases "F * dpf \<le> j \<and> j < F * dpf + dpf")
    case True
    then have "j div dpf = F"
      by (intro div_nat_eqI) (simp_all add: mult.commute)
    with True show ?thesis
      using j len by (simp add: copied_nth)
  next
    case False
    then show ?thesis
      using j len val [OF j] by (auto simp: copied_nth)
  qed
  show ?case
    using run' val' len by (auto simp: copied_length)
qed

lemma chunk_loop_run:
  assumes "0 < istep \<or> m = 0"
    and "n_cell = fbase + m * istep"
    and "n_cell \<le> length spv" and "n_cell \<le> length nv0"
    and "\<forall>v \<in> set spv. length v = dim" and "f + m \<le> dim"
  shows "\<exists>nv. chunk_loop spv n_cell istep fbase f \<lparr>nodal_values = nv0, assigned = as0\<rparr> =
            Some (Inr (n_cell, \<lparr>nodal_values = nv, assigned = as0 @ [fbase..<n_cell]\<rparr>))
          \<and> length nv = length nv0
          \<and> (\<forall>j < length nv0. nv ! j =
                (if fbase \<le> j \<and> j < n_cell then spv ! j ! (f + (j - fbase) div istep)
                 else nv0 ! j))"
  using assms(1,2,4,6)
proof (induction m arbitrary: fbase f nv0 as0)
  case 0
  then have "\<not> fbase < n_cell"
    by simp
  then show ?case
    using 0 by (subst chunk_loop.simps) auto
next
  case (Suc m)
  then have pos: "0 < istep"
    by simp
  have lt: "fbase < n_cell"
    using Suc.prems(2) pos by simp
  have le: "fbase + istep \<le> length spv" "fbase + istep \<le> length nv0"
    using Suc.prems(2,3) assms(3) by simp_all
  have c: "\<forall>v \<in> set spv. f < length v"
    using assms(5) Suc.prems(4) by simp
  let ?st = "\<lparr>nodal_values = nv0, assigned = as0\<rparr>"
  let ?nv1 = "copied spv fbase f istep nv0"
  have inner: "for_each (\<lambda>i. copy_component spv (fbase + i) f) [0..<istep] ?st =
      Inr \<lparr>nodal_values = ?nv1, assigned = as0 @ [fbase..<fbase + istep]\<rparr>"
    using for_each_copy [of fbase istep spv ?st f] le c by simp
  have "\<exists>nv. chunk_loop spv n_cell istep (fbase + istep) (f + 1)
              \<lparr>nodal_values = ?nv1, assigned = as0 @ [fbase..<fbase + istep]\<rparr> =
            Some (Inr (n_cell, \<lparr>nodal_values = nv,
                    assigned = (as0 @ [fbase..<fbase + istep]) @ [fbase + istep..<n_cell]\<rparr>))
          \<and> length nv = length ?nv1
          \<and> (\<forall>j < length ?nv1. nv ! j =
                (if fbase + istep \<le> j \<and> j < n_cell
                 then spv ! j ! (f + 1 + (j - (fbase + istep)) div istep)
                 else ?nv1 ! j))"
    using Suc.prems pos by (intro Suc.IH) (simp_all add: copied_length)
  then obtain nv where run: "chunk_loop spv n_cell istep (fbase + istep) (f + 1)
              \<lparr>nodal_values = ?nv1, assigned = as0 @ [fbase..<fbase + istep]\<rparr> =
            Some (Inr (n_cell, \<lparr>nodal_values = nv,
                    assigned = (as0 @ [fbase..<fbase + istep]) @ [fbase + istep..<n_cell]\<rparr>))"
    and len: "length nv = length nv0"
    and val: "\<And>j. j < length nv0 \<Longrightarrow> nv ! j =
                (if fbase + istep \<le> j \<and> j < n_cell
                 then spv ! j ! (f + 1 + (j - (fbase + istep)) div istep)
                 else ?nv1 ! j)"
    by (auto simp: copied_length)
  have app: "[fbase..<fbase + istep] @ [fbase + istep..<n_cell] = [fbase..<n_cell]"
  proof -
    have "[fbase..<fbase + istep + m * istep] =
        [fbase..<fbase + istep] @ [fbase + istep..<fbase + istep + m * istep]"
      by (rule upt_add_eq_append) simp
    moreover have "n_cell = fbase + istep + m * istep"
      using Suc.prems(2) by simp
    ultimately show ?thesis
      by (simp only:)
  qed
  have run': "chunk_loop spv n_cell istep fbase f ?st =
      Some (Inr (n_cell, \<lparr>nodal_values = nv, assigned = as0 @ [fbase..<n_cell]\<rparr>))"
    using lt inner run app by (subst chunk_loop.simps) simp
  have val': "nv ! j = (if fbase \<le> j \<and> j < n_cell then spv ! j ! (f + (j - fbase) div istep)
                 else nv0 ! j)" if j: "j < length nv0" for j
  proof (cases "fbase + istep \<le> j")
    case True
    then have "(j - fbase) div istep = Suc ((j - (fbase + istep)) div istep)"
      using pos by (simp add: le_div_geq)
    then show ?thesis
      using val [OF j] True j by (auto simp: copied_nth)
  next
    case False
    then have "j - fbase < istep"
      using pos by arith
    then have "(j - fbase) div istep = 0"
      by (rule div_less)
    moreover have "fbase + istep \<le> n_cell"
      using Suc.prems(2) by simp
    ultimately show ?thesis
      using val [OF j] False j by (auto simp: copied_nth)
  qed
  show ?case
    using run' val' len by auto
qed

lemma rt_cell_split:
  assumes "dim = 2 \<or> dim = 3"
  shows "n_dofs_per_cell dim degree = dim * (degree + 2) * (degree + 1) ^ (dim - 1)"
    and "n_dofs_per_cell dim degree =
           faces_per_cell dim * n_dofs_per_face dim degree
             + dim * (degree * n_dofs_per_face dim degree)"
  using assms
  by (auto simp: n_dofs_per_cell_2 n_dofs_per_cell_3 n_dofs_per_face_eq
      faces_per_cell_def algebra_simps)

text \<open>
  C10. For \<open>dim\<close> 2 or 3, vectors of the asserted sizes, support point values with
  \<open>dim\<close> components each and normal directions below \<open>dim\<close>: the function returns; the
  positions assigned are \<open>0, ..., N - 1\<close> (\<open>N\<close> the number of dofs per cell,
  \<open>dim * (degree + 2) * (degree + 1) ^ (dim - 1)\<close> by lemma \<open>rt_cell_split\<close>), each
  once and in this order; position
  \<open>f * dofs_per_face + i\<close> of face \<open>f\<close> holds component \<open>unit_normal_direction f\<close> of
  the support point value at that position; and the remaining positions form \<open>dim\<close>
  consecutive chunks of equal length, where a position of chunk \<open>d\<close> holds component \<open>d\<close>
  of the support point value at that position.
\<close>

theorem convert_support_point_values:
  assumes dim: "dim = 2 \<or> dim = 3"
    and spv: "length support_point_values = n_dofs_per_cell dim degree"
    and nodal: "length nodal = n_dofs_per_cell dim degree"
    and comps: "\<forall>v \<in> set support_point_values. length v = dim"
    and und: "\<forall>f < faces_per_cell dim. unit_normal_direction f < dim"
  shows "\<exists>st. convert_generalized_support_point_values_to_dof_values dim degree
                unit_normal_direction support_point_values nodal = Some (Inr st)
     \<and> assigned st = [0..<n_dofs_per_cell dim degree]
     \<and> length (nodal_values st) = n_dofs_per_cell dim degree
     \<and> (\<forall>f i. f < faces_per_cell dim \<and> i < n_dofs_per_face dim degree \<longrightarrow>
           nodal_values st ! (f * n_dofs_per_face dim degree + i) =
             support_point_values ! (f * n_dofs_per_face dim degree + i) ! unit_normal_direction f)
     \<and> (\<forall>d i. d < dim \<and> i < degree * n_dofs_per_face dim degree \<longrightarrow>
           nodal_values st ! (faces_per_cell dim * n_dofs_per_face dim degree
                                + d * (degree * n_dofs_per_face dim degree) + i) =
             support_point_values ! (faces_per_cell dim * n_dofs_per_face dim degree
                                + d * (degree * n_dofs_per_face dim degree) + i) ! d)"
proof -
  let ?N = "n_dofs_per_cell dim degree"
  let ?F = "faces_per_cell dim"
  let ?dpf = "n_dofs_per_face dim degree"
  let ?istep = "degree * ?dpf"
  let ?fb = "?F * ?dpf"
  let ?m = "if degree = 0 then 0 else dim"
  have split: "?N = ?fb + dim * ?istep"
    using dim by (rule rt_cell_split(2))
  have dim0: "0 < dim"
    using dim by auto
  have dpf0: "0 < ?dpf"
    using dim by (simp add: n_dofs_per_face_eq)
  have N0: "0 < ?N"
    using split dim0 dpf0 by (simp add: faces_per_cell_def)
  have len0: "length (support_point_values ! 0) = dim"
    using comps spv N0 by simp
  have fb_le: "?fb \<le> length support_point_values" "?fb \<le> length nodal"
    using split spv nodal by simp_all
  from face_loop_run [OF fb_le comps und, of "[]"]
  obtain nv1 where run1: "face_loop ?F ?dpf unit_normal_direction support_point_values
        (0, \<lparr>nodal_values = nodal, assigned = []\<rparr>) =
        Inr (?fb, \<lparr>nodal_values = nv1, assigned = [0..<?fb]\<rparr>)"
    and len1: "length nv1 = length nodal"
    and val1: "\<And>j. j < length nodal \<Longrightarrow> nv1 ! j =
        (if j < ?fb then support_point_values ! j ! unit_normal_direction (j div ?dpf)
         else nodal ! j)"
    by auto
  have rest: "?N - ?fb = dim * ?istep"
    using split by simp
  have istep: "(?N - ?fb) div dim = ?istep" and md: "(?N - ?fb) mod dim = 0"
    unfolding rest using dim0 by simp_all
  have m1: "0 < ?istep \<or> ?m = 0"
    using dpf0 by simp
  have m2: "?N = ?fb + ?m * ?istep"
    using split by simp
  have m3: "?N \<le> length support_point_values" "?N \<le> length nv1"
    using spv nodal len1 by simp_all
  have m4: "0 + ?m \<le> dim"
    by simp
  from chunk_loop_run [OF m1 m2 m3 comps m4, of "[0..<?fb]"]
  obtain nv2 where run2: "chunk_loop support_point_values ?N ?istep ?fb 0
        \<lparr>nodal_values = nv1, assigned = [0..<?fb]\<rparr> =
        Some (Inr (?N, \<lparr>nodal_values = nv2, assigned = [0..<?fb] @ [?fb..<?N]\<rparr>))"
    and len2: "length nv2 = length nv1"
    and val2: "\<And>j. j < length nv1 \<Longrightarrow> nv2 ! j =
        (if ?fb \<le> j \<and> j < ?N then support_point_values ! j ! (0 + (j - ?fb) div ?istep)
         else nv1 ! j)"
    by auto
  have app: "[0..<?fb] @ [?fb..<?N] = [0..<?N]"
  proof -
    have "[0..<?fb + dim * ?istep] = [0..<?fb] @ [?fb..<?fb + dim * ?istep]"
      by (rule upt_add_eq_append) simp
    then show ?thesis
      unfolding split [symmetric] by simp
  qed
  let ?st = "\<lparr>nodal_values = nv2, assigned = [0..<?N]\<rparr>"
  have run: "convert_generalized_support_point_values_to_dof_values dim degree
                unit_normal_direction support_point_values nodal = Some (Inr ?st)"
    unfolding convert_generalized_support_point_values_to_dof_values_def
    using spv nodal len0 run1 istep md run2 app
    by (simp add: Let_def)
  have faces: "nv2 ! (f * ?dpf + i) =
      support_point_values ! (f * ?dpf + i) ! unit_normal_direction f"
    if "f < ?F" "i < ?dpf" for f i
  proof -
    have "f * ?dpf + i < Suc f * ?dpf"
      using that(2) by simp
    also have "\<dots> \<le> ?fb"
      using that(1) by (intro mult_le_mono1) simp
    finally have lt: "f * ?dpf + i < ?fb" .
    then have j: "f * ?dpf + i < length nodal"
      using fb_le by simp
    have "(f * ?dpf + i) div ?dpf = f"
      using that(2) by simp
    then show ?thesis
      using val2 [of "f * ?dpf + i"] val1 [OF j] j lt len1 by simp
  qed
  have chunks: "nv2 ! (?fb + d * ?istep + i) = support_point_values ! (?fb + d * ?istep + i) ! d"
    if "d < dim" "i < ?istep" for d i
  proof -
    have "d * ?istep + i < Suc d * ?istep"
      using that(2) by simp
    also have "\<dots> \<le> dim * ?istep"
      using that(1) by (intro mult_le_mono1) simp
    finally have lt: "?fb + d * ?istep + i < ?N"
      using split by simp
    have "(d * ?istep + i) div ?istep = d"
      using that(2) by (intro div_nat_eqI) (simp_all add: mult.commute)
    then have "(?fb + d * ?istep + i - ?fb) div ?istep = d"
      by (simp add: add.assoc)
    then show ?thesis
      using val2 [of "?fb + d * ?istep + i"] lt m3 by simp
  qed
  have "length nv2 = ?N"
    using len2 len1 nodal by simp
  with run faces chunks show ?thesis
    by auto
qed

theorem convert_support_point_values_witness:
  "\<exists>st. convert_generalized_support_point_values_to_dof_values 2 1 (\<lambda>f. f div 2)
           (replicate 12 [7, 9::nat]) (replicate 12 0) = Some (Inr st)
     \<and> assigned st = [0..<12]
     \<and> nodal_values st ! 0 = 7 \<and> nodal_values st ! 5 = 9
     \<and> nodal_values st ! 8 = 7 \<and> nodal_values st ! 10 = 9"
proof -
  have a: "(2::nat) = 2 \<or> (2::nat) = 3"
    by simp
  have b: "length (replicate 12 [7, 9::nat]) = n_dofs_per_cell 2 1"
    by (simp add: n_dofs_per_cell_2)
  have c: "length (replicate 12 (0::nat)) = n_dofs_per_cell 2 1"
    by (simp add: n_dofs_per_cell_2)
  have d: "\<forall>v \<in> set (replicate 12 [7, 9::nat]). length v = 2"
    by simp
  have e: "\<forall>f < faces_per_cell 2. f div 2 < 2"
    unfolding faces_per_cell_def by (intro allI impI) arith
  have n: "n_dofs_per_cell 2 1 = 12" "n_dofs_per_face 2 1 = 2" "faces_per_cell 2 = 4"
    by (simp_all add: n_dofs_per_cell_2 n_dofs_per_face_eq faces_per_cell_def)
  from convert_support_point_values [OF a b c d e]
  obtain st where run: "convert_generalized_support_point_values_to_dof_values 2 1 (\<lambda>f. f div 2)
           (replicate 12 [7, 9::nat]) (replicate 12 0) = Some (Inr st)"
    and asg: "assigned st = [0..<12]"
    and faces: "\<And>f i. f < 4 \<Longrightarrow> i < 2 \<Longrightarrow>
        nodal_values st ! (f * 2 + i) = replicate 12 [7, 9::nat] ! (f * 2 + i) ! (f div 2)"
    and chunks: "\<And>d i. d < 2 \<Longrightarrow> i < 2 \<Longrightarrow>
        nodal_values st ! (8 + d * 2 + i) = replicate 12 [7, 9::nat] ! (8 + d * 2 + i) ! d"
    unfolding n by auto
  from faces [of 0 0] faces [of 2 1] chunks [of 0 0] chunks [of 1 0]
  have "nodal_values st ! 0 = 7 \<and> nodal_values st ! 5 = 9
     \<and> nodal_values st ! 8 = 7 \<and> nodal_values st ! 10 = 9"
    by simp
  with run asg show ?thesis
    by blast
qed

end
